theory Spec2Isabelle
  imports Main "HOL-Library.FSet" "HOL-Library.Multiset"
begin

section \<open>Memory model\<close>

text \<open>
  The four routines of \<^verbatim>\<open>free-memory.c\<close> only read arrays and linked nodes and hand
  blocks back to the allocator. Memory is therefore a record of the blocks that are
  currently allocated, the \<^verbatim>\<open>struct node\<close> stored at each address, and a log of the
  memory events performed so far. A pointer is an optional address: \<open>None\<close> is
  \<^verbatim>\<open>NULL\<close>. Everything that is undefined behaviour in C (subscript beyond the array,
  dereferencing \<^verbatim>\<open>NULL\<close>, reading a block that is not allocated, freeing a block
  that is not allocated) is a fault value carrying the memory at the point of the fault.

  The counters \<^verbatim>\<open>k\<close>, \<^verbatim>\<open>c\<close>, \<^verbatim>\<open>n\<close>, \<^verbatim>\<open>i\<close>, \<^verbatim>\<open>j\<close> are \<^verbatim>\<open>size_t\<close>; every loop
  increments its counter only while it is below the bound, so no increment wraps and
  natural numbers model them exactly.
\<close>

type_synonym addr = nat

type_synonym ptr = "addr option"

text \<open>
  Modelled from the spec: \<^verbatim>\<open>struct node\<close> is declared in \<^verbatim>\<open>declarations.h\<close>, which is
  not part of the sources. The code uses its link \<^verbatim>\<open>next\<close> only (the spec's
  ClusterNode: a payload and the following node or none); the payload is left out.
\<close>

record node =
  "next" :: ptr

text \<open>
  Modelled from the spec: \<^verbatim>\<open>struct element\<close> is declared in \<^verbatim>\<open>declarations.h\<close> too.
  The code uses its owned array \<^verbatim>\<open>values\<close> only (the spec's Point); further fields
  fit in the record's extension, and the routines take elements with any extension.
\<close>

record element =
  "values" :: ptr

text \<open>
  The events of a run: reading cell \<open>i\<close> of the array parameter, reading the
  \<^verbatim>\<open>next\<close> field of the node at an address, and releasing the block at an address.
\<close>

datatype event = Subscript nat | Load addr | Release addr

datatype fault = OutOfBounds | NullDeref | InvalidRead | InvalidFree

record mem =
  allocated :: "addr fset"
  nodes :: "addr \<Rightarrow> node"
  events :: "event list"

type_synonym 'a outcome = "(fault \<times> mem) + 'a"

definition emit :: "event \<Rightarrow> mem \<Rightarrow> mem" where
  "emit e h = h\<lparr>events := events h @ [e]\<rparr>"

text \<open>\<^verbatim>\<open>free(p)\<close>: nothing happens for \<^verbatim>\<open>NULL\<close>; an allocated block is released.\<close>

definition c_free :: "ptr \<Rightarrow> mem \<Rightarrow> mem outcome" where
  "c_free p h =
     (case p of
        None \<Rightarrow> Inr h
      | Some a \<Rightarrow>
          if a |\<in>| allocated h
          then Inr (emit (Release a) (h\<lparr>allocated := allocated h |-| {|a|}\<rparr>))
          else Inl (InvalidFree, h))"

text \<open>\<^verbatim>\<open>p->next\<close>\<close>

definition deref_next :: "ptr \<Rightarrow> mem \<Rightarrow> (ptr \<times> mem) outcome" where
  "deref_next p h =
     (case p of
        None \<Rightarrow> Inl (NullDeref, h)
      | Some a \<Rightarrow>
          if a |\<in>| allocated h
          then Inr (next (nodes h a), emit (Load a) h)
          else Inl (InvalidRead, h))"

text \<open>\<^verbatim>\<open>A[i]\<close>, for an array whose storage holds the elements of the list \<open>A\<close>\<close>

definition subscript :: "'a list \<Rightarrow> nat \<Rightarrow> mem \<Rightarrow> ('a \<times> mem) outcome" where
  "subscript A i h =
     (if i < length A then Inr (A ! i, emit (Subscript i) h) else Inl (OutOfBounds, h))"

text \<open>\<^verbatim>\<open>for (size_t i = i0; i < k; i++) body\<close>\<close>

function for_loop :: "nat \<Rightarrow> nat \<Rightarrow> (nat \<Rightarrow> mem \<Rightarrow> mem outcome) \<Rightarrow> mem \<Rightarrow> mem outcome" where
  "for_loop i k body h =
     (if i < k
      then (case body i h of Inl e \<Rightarrow> Inl e | Inr h' \<Rightarrow> for_loop (Suc i) k body h')
      else Inr h)"
  by pat_completeness auto
termination
  by (relation "measure (\<lambda>(i, k, body, h). k - i)") auto

declare for_loop.simps [simp del]

section \<open>The routines\<close>

subsection \<open>\<^verbatim>\<open>free_cluster_list\<close>\<close>

text \<open>
  The body of the \<^verbatim>\<open>while\<close> loop (lines 18 to 20): save the current node in
  \<^verbatim>\<open>prev\<close>, advance \<^verbatim>\<open>ptr\<close>, release \<^verbatim>\<open>prev\<close>. The result holds the new
  \<^verbatim>\<open>ptr\<close>, the saved \<^verbatim>\<open>prev\<close> and the memory.
\<close>

definition loop_body :: "ptr \<Rightarrow> mem \<Rightarrow> (ptr \<times> ptr \<times> mem) outcome" where
  "loop_body ptr h =
     (let prev = ptr in
      case deref_next ptr h of
        Inl e \<Rightarrow> Inl e
      | Inr (ptr', h1) \<Rightarrow>
          (case c_free prev h1 of Inl e \<Rightarrow> Inl e | Inr h2 \<Rightarrow> Inr (ptr', prev, h2)))"

lemma deref_next_allocated:
  "deref_next p h = Inr (q, h1) \<Longrightarrow> allocated h1 = allocated h"
  by (auto simp: deref_next_def emit_def split: option.splits if_splits)

lemma loop_body_fcard:
  "loop_body p h = Inr (q, pv, h2) \<Longrightarrow> fcard (allocated h2) < fcard (allocated h)"
proof -
  assume r: "loop_body p h = Inr (q, pv, h2)"
  then obtain a where a: "a |\<in>| allocated h" "allocated h2 = allocated h |-| {|a|}"
    by (auto simp: loop_body_def deref_next_def c_free_def emit_def
        split: option.splits if_splits)
  show ?thesis
    unfolding a(2) by (rule fcard_fminus1_less [OF a(1)])
qed

text \<open>
  The \<^verbatim>\<open>while\<close> loop of lines 16 to 21. The guard reads \<^verbatim>\<open>ptr->next\<close>. The second
  argument is a ghost counter of the iterations; the code has no such variable. Every
  iteration releases an allocated block, which is what makes the function total.
\<close>

function chain_loop :: "ptr \<Rightarrow> nat \<Rightarrow> mem \<Rightarrow> (ptr \<times> nat \<times> mem) outcome" where
  "chain_loop ptr n h =
     (case deref_next ptr h of
        Inl e \<Rightarrow> Inl e
      | Inr (nx, h1) \<Rightarrow>
          (case nx of
             None \<Rightarrow> Inr (ptr, n, h1)
           | Some b \<Rightarrow>
               (case loop_body ptr h1 of
                  Inl e \<Rightarrow> Inl e
                | Inr (ptr', prev, h2) \<Rightarrow> chain_loop ptr' (Suc n) h2)))"
  by pat_completeness auto
termination
proof (relation "measure (\<lambda>(ptr, n, h). fcard (allocated h))", goal_cases)
  case 1
  show ?case by simp
next
  case (2 ptr n h x nx h1 b y ptr' z prev h2)
  then have "allocated h1 = allocated h"
    using deref_next_allocated [of ptr h nx h1] by simp
  moreover have "fcard (allocated h2) < fcard (allocated h1)"
    using 2 loop_body_fcard [of ptr h1 ptr' prev h2] by simp
  ultimately show ?case by simp
qed

declare chain_loop.simps [simp del]

text \<open>Lines 16 to 22: the loop, then \<^verbatim>\<open>free(ptr)\<close> for the node the loop stopped at.\<close>

definition release_chain :: "ptr \<Rightarrow> mem \<Rightarrow> mem outcome" where
  "release_chain ptr h =
     (case chain_loop ptr 0 h of
        Inl e \<Rightarrow> Inl e
      | Inr (ptr', n, h1) \<Rightarrow> c_free ptr' h1)"

text \<open>Lines 15 to 22: the body of the \<^verbatim>\<open>for\<close> loop.\<close>

definition cluster_body :: "ptr list \<Rightarrow> nat \<Rightarrow> mem \<Rightarrow> mem outcome" where
  "cluster_body PTR_CLUSTER_HEADS i h =
     (case subscript PTR_CLUSTER_HEADS i h of
        Inl e \<Rightarrow> Inl e
      | Inr (ptr, h1) \<Rightarrow> release_chain ptr h1)"

definition free_cluster_list :: "nat \<Rightarrow> ptr list \<Rightarrow> mem \<Rightarrow> mem outcome" where
  "free_cluster_list k PTR_CLUSTER_HEADS h = for_loop 0 k (cluster_body PTR_CLUSTER_HEADS) h"

subsection \<open>\<^verbatim>\<open>free_category_indices\<close>, \<^verbatim>\<open>free_distances\<close>, \<^verbatim>\<open>free_points\<close>\<close>

text \<open>\<^verbatim>\<open>free(SLOTS[i])\<close>\<close>

definition slot_body :: "ptr list \<Rightarrow> nat \<Rightarrow> mem \<Rightarrow> mem outcome" where
  "slot_body SLOTS i h =
     (case subscript SLOTS i h of Inl e \<Rightarrow> Inl e | Inr (p, h1) \<Rightarrow> c_free p h1)"

definition free_category_indices :: "nat \<Rightarrow> ptr list \<Rightarrow> mem \<Rightarrow> mem outcome" where
  "free_category_indices c CATEGORY_HEADS h = for_loop 0 c (slot_body CATEGORY_HEADS) h"

definition free_distances :: "nat \<Rightarrow> ptr list \<Rightarrow> mem \<Rightarrow> mem outcome" where
  "free_distances n DISTANCES h = for_loop 0 n (slot_body DISTANCES) h"

text \<open>\<^verbatim>\<open>free(POINTS[j].values)\<close>\<close>

definition point_body :: "'a element_scheme list \<Rightarrow> nat \<Rightarrow> mem \<Rightarrow> mem outcome" where
  "point_body POINTS j h =
     (case subscript POINTS j h of Inl e \<Rightarrow> Inl e | Inr (p, h1) \<Rightarrow> c_free (values p) h1)"

text \<open>The parameter \<^verbatim>\<open>n\<close> occurs in the parameter list only.\<close>

definition free_points :: "nat \<Rightarrow> 'a element_scheme list \<Rightarrow> nat \<Rightarrow> mem \<Rightarrow> mem outcome" where
  "free_points n POINTS i h = for_loop 0 i (point_body POINTS) h"

section \<open>Chains, traces and scenarios\<close>

text \<open>
  \<open>chain nd p as\<close>: following \<^verbatim>\<open>next\<close> from the pointer \<open>p\<close> visits exactly the
  addresses \<open>as\<close>, in this order, and then reaches \<^verbatim>\<open>NULL\<close>. Such a list of nodes is
  null-terminated, and it is acyclic (its addresses are pairwise distinct, lemma
  \<open>chain_distinct\<close>).
\<close>

primrec chain :: "(addr \<Rightarrow> node) \<Rightarrow> ptr \<Rightarrow> addr list \<Rightarrow> bool" where
  "chain nd p [] \<longleftrightarrow> p = None"
| "chain nd p (a # as) \<longleftrightarrow> p = Some a \<and> chain nd (next (nd a)) as"

text \<open>A cluster's chain: at least one node, starting at the head \<open>p\<close>.\<close>

definition owned_chain :: "mem \<Rightarrow> ptr \<Rightarrow> addr list \<Rightarrow> bool" where
  "owned_chain h p as \<longleftrightarrow> as \<noteq> [] \<and> chain (nodes h) p as"

text \<open>
  The events of the \<^verbatim>\<open>while\<close> loop on a chain: every node but the last is read by
  the guard, read again by \<^verbatim>\<open>ptr = ptr->next\<close> and then released; the last node is
  read by the guard only.
\<close>

fun loop_trace :: "addr list \<Rightarrow> event list" where
  "loop_trace [] = []"
| "loop_trace [a] = [Load a]"
| "loop_trace (a # b # as) = [Load a, Load a, Release a] @ loop_trace (b # as)"

text \<open>The events of lines 16 to 22 on a chain, and of the whole routine on \<open>k\<close> chains.\<close>

definition chain_trace :: "addr list \<Rightarrow> event list" where
  "chain_trace as = loop_trace as @ [Release (last as)]"

fun cluster_trace :: "nat \<Rightarrow> addr list list \<Rightarrow> event list" where
  "cluster_trace i [] = []"
| "cluster_trace i (as # ass) = Subscript i # chain_trace as @ cluster_trace (Suc i) ass"

text \<open>The addresses released, the addresses read and the array cells read, in order.\<close>

fun released :: "event list \<Rightarrow> addr list" where
  "released [] = []"
| "released (Release a # es) = a # released es"
| "released (Load a # es) = released es"
| "released (Subscript i # es) = released es"

fun loaded :: "event list \<Rightarrow> addr list" where
  "loaded [] = []"
| "loaded (Load a # es) = a # loaded es"
| "loaded (Release a # es) = loaded es"
| "loaded (Subscript i # es) = loaded es"

fun subscripts :: "event list \<Rightarrow> nat list" where
  "subscripts [] = []"
| "subscripts (Subscript i # es) = i # subscripts es"
| "subscripts (Load a # es) = subscripts es"
| "subscripts (Release a # es) = subscripts es"

text \<open>No block is read, or released again, after it has been released.\<close>

fun no_use_after_release :: "event list \<Rightarrow> bool" where
  "no_use_after_release [] = True"
| "no_use_after_release (Release a # es) =
     (a \<notin> set (loaded es) \<and> a \<notin> set (released es) \<and> no_use_after_release es)"
| "no_use_after_release (Load a # es) = no_use_after_release es"
| "no_use_after_release (Subscript i # es) = no_use_after_release es"

text \<open>The fault of a run, if any, and the memory a run ends in (at its end or at its fault).\<close>

definition fault_of :: "'a outcome \<Rightarrow> fault option" where
  "fault_of r = (case r of Inl (f, h) \<Rightarrow> Some f | Inr x \<Rightarrow> None)"

definition mem_of :: "mem outcome \<Rightarrow> mem" where
  "mem_of r = (case r of Inl (f, h) \<Rightarrow> h | Inr h \<Rightarrow> h)"

text \<open>
  Running a loop body for the indices of a list, in the order of the list; the
  \<^verbatim>\<open>for\<close> loop is \<open>for_each [i..<k]\<close> (lemma \<open>for_loop_for_each\<close>).
\<close>

fun for_each :: "nat list \<Rightarrow> (nat \<Rightarrow> mem \<Rightarrow> mem outcome) \<Rightarrow> mem \<Rightarrow> mem outcome" where
  "for_each [] body h = Inr h"
| "for_each (i # is) body h =
     (case body i h of Inl e \<Rightarrow> Inl e | Inr h' \<Rightarrow> for_each is body h')"

text \<open>
  Releasing the slots of an array in an arbitrary order of the indices. This is not a
  routine of the code: it states what ``releasing the slots in another order'' means.
\<close>

definition release_in_order :: "nat list \<Rightarrow> ptr list \<Rightarrow> mem \<Rightarrow> mem outcome" where
  "release_in_order is SLOTS h = for_each is (slot_body SLOTS) h"

text \<open>The non-null pointers of an array of slots, in order.\<close>

fun present :: "ptr list \<Rightarrow> addr list" where
  "present [] = []"
| "present (None # ps) = present ps"
| "present (Some a # ps) = a # present ps"

text \<open>
  The events of releasing the slots with the given indices: each slot is read, and
  released when it is not null.
\<close>

fun slot_trace :: "nat list \<Rightarrow> ptr list \<Rightarrow> event list" where
  "slot_trace [] SLOTS = []"
| "slot_trace (i # is) SLOTS =
     Subscript i # (case SLOTS ! i of None \<Rightarrow> [] | Some a \<Rightarrow> [Release a]) @ slot_trace is SLOTS"

text \<open>
  The scenario of three clusters with chains of lengths 1, 2 and 1: the nodes are at
  10, at 20 and 21, and at 30.
\<close>

definition scenario_mem :: mem where
  "scenario_mem =
     \<lparr>allocated = {|10, 20, 21, 30|},
      nodes = (\<lambda>a. \<lparr>next = (if a = 20 then Some 21 else None)\<rparr>),
      events = []\<rparr>"

text \<open>
  The scenario of four categories with slots \<^verbatim>\<open>[null, ptr, null, ptr]\<close>, and the
  scenario of five points of which the loader allocated three (the fourth holds
  \<^verbatim>\<open>NULL\<close>, the fifth a stale pointer); the block at 50 stands for the storage of the
  array of points.
\<close>

definition slots_mem :: mem where
  "slots_mem = \<lparr>allocated = {|41, 43|}, nodes = (\<lambda>a. \<lparr>next = None\<rparr>), events = []\<rparr>"

definition points_mem :: mem where
  "points_mem = \<lparr>allocated = {|50, 51, 52, 53|}, nodes = (\<lambda>a. \<lparr>next = None\<rparr>), events = []\<rparr>"

definition scenario_points :: "element list" where
  "scenario_points =
     [\<lparr>values = Some 51\<rparr>, \<lparr>values = Some 52\<rparr>, \<lparr>values = Some 53\<rparr>,
      \<lparr>values = None\<rparr>, \<lparr>values = Some 99\<rparr>]"

section \<open>Auxiliary lemmas\<close>

lemma chain_unique: "chain nd p as \<Longrightarrow> chain nd p bs \<Longrightarrow> as = bs"
proof (induction as arbitrary: p bs)
  case Nil
  then show ?case by (cases bs) simp_all
next
  case (Cons a as)
  then show ?case by (cases bs) auto
qed

lemma chain_suffix: "chain nd p (xs @ a # ys) \<Longrightarrow> chain nd (next (nd a)) ys"
  by (induction xs arbitrary: p) auto

lemma chain_notin: "chain nd (next (nd a)) as \<Longrightarrow> a \<notin> set as"
proof
  assume c: "chain nd (next (nd a)) as" and m: "a \<in> set as"
  from m obtain xs ys where s: "as = xs @ a # ys" by (auto simp: in_set_conv_decomp)
  with c have "chain nd (next (nd a)) ys" using chain_suffix by blast
  with c have "as = ys" by (rule chain_unique)
  with s show False by simp
qed

lemma chain_distinct: "chain nd p as \<Longrightarrow> distinct as"
  by (induction as arbitrary: p) (auto dest: chain_notin)

lemma fminus_single_first: "A |-| {|a|} |-| X = A |-| finsert a X"
  by auto

lemma fminus_twice: "A |-| X |-| Y = A |-| (X |\<union>| Y)"
  by auto

lemma chain_loop_chain:
  "chain (nodes h) (Some a) (a # as) \<Longrightarrow> fset_of_list (a # as) |\<subseteq>| allocated h \<Longrightarrow>
   chain_loop (Some a) n h =
     Inr (Some (last (a # as)), n + length as,
          h\<lparr>allocated := allocated h |-| fset_of_list (butlast (a # as)),
            events := events h @ loop_trace (a # as)\<rparr>)"
proof (induction as arbitrary: a n h)
  case Nil
  then show ?case
    by (subst chain_loop.simps) (simp add: deref_next_def emit_def)
next
  case (Cons b bs)
  let ?h2 = "h\<lparr>allocated := allocated h |-| {|a|}, events := events h @ [Load a, Load a, Release a]\<rparr>"
  from Cons.prems have nb: "next (nodes h a) = Some b" and al: "a |\<in>| allocated h" by auto
  from Cons.prems have "a \<notin> set (b # bs)" using chain_notin [of "nodes h" a "b # bs"] by simp
  with Cons.prems have sub: "fset_of_list (b # bs) |\<subseteq>| allocated ?h2" by (auto simp: fset_of_list_elem)
  from Cons.prems have ch: "chain (nodes ?h2) (Some b) (b # bs)" by simp
  have step: "chain_loop (Some a) n h = chain_loop (Some b) (Suc n) ?h2"
    by (subst chain_loop.simps) (simp add: deref_next_def loop_body_def c_free_def emit_def nb al)
  show ?case
    unfolding step Cons.IH [OF ch sub] by (simp add: fminus_single_first)
qed

lemma released_append: "released (xs @ ys) = released xs @ released ys"
  by (induction xs rule: released.induct) simp_all

lemma loaded_append: "loaded (xs @ ys) = loaded xs @ loaded ys"
  by (induction xs rule: loaded.induct) simp_all

lemma released_loop_trace: "released (loop_trace as) = butlast as"
  by (induction as rule: loop_trace.induct) simp_all

lemma released_chain_trace: "as \<noteq> [] \<Longrightarrow> released (chain_trace as) = as"
  by (simp add: chain_trace_def released_append released_loop_trace)

lemma fset_butlast_last:
  "as \<noteq> [] \<Longrightarrow> A |-| fset_of_list (butlast as) |-| {|last as|} = A |-| fset_of_list as"
proof -
  assume "as \<noteq> []"
  then have "as = butlast as @ [last as]" by simp
  then have "fset_of_list as = fset_of_list (butlast as) |\<union>| {|last as|}"
    by (metis fset_of_list_append fset_of_list_simps)
  then show ?thesis by auto
qed

lemma last_notin_butlast: "distinct as \<Longrightarrow> as \<noteq> [] \<Longrightarrow> last as \<notin> set (butlast as)"
proof -
  assume d: "distinct as" and n: "as \<noteq> []"
  from n have "as = butlast as @ [last as]" by simp
  with d have "distinct (butlast as @ [last as])" by simp
  then show ?thesis by simp
qed

lemma release_chain_chain:
  assumes "as \<noteq> []" and "chain (nodes h) p as" and "fset_of_list as |\<subseteq>| allocated h"
  shows "release_chain p h =
     Inr (h\<lparr>allocated := allocated h |-| fset_of_list as,
            events := events h @ chain_trace as\<rparr>)"
proof -
  from assms(1) obtain a bs where as: "as = a # bs" by (cases as) auto
  with assms(2) have p: "p = Some a" by simp
  have d: "distinct as" using assms(2) by (rule chain_distinct)
  have "last as \<notin> set (butlast as)"
    using d assms(1) by (rule last_notin_butlast)
  moreover have "last as |\<in>| allocated h"
    using assms(1,3) by (auto simp: fset_of_list_elem)
  ultimately have l: "last as |\<in>| allocated h |-| fset_of_list (butlast as)"
    by (simp add: fset_of_list_elem)
  show ?thesis
    using chain_loop_chain [of h a bs 0] assms l unfolding as [symmetric] p
    by (simp add: release_chain_def c_free_def emit_def chain_trace_def fset_butlast_last as [symmetric])
qed

lemma drop_eq_Cons:
  "drop i xs = y # ys \<Longrightarrow> i < length xs \<and> xs ! i = y \<and> drop (Suc i) xs = ys"
proof -
  assume d: "drop i xs = y # ys"
  then have i: "i < length xs" by (cases "i < length xs") auto
  from d i show ?thesis
    by (metis Cons_nth_drop_Suc list.inject)
qed

lemma cluster_loop_chains:
  "list_all2 (owned_chain h) (drop i HEADS) CHAINS \<Longrightarrow> k = length HEADS \<Longrightarrow>
   distinct (concat CHAINS) \<Longrightarrow> fset_of_list (concat CHAINS) |\<subseteq>| allocated h \<Longrightarrow>
   for_loop i k (cluster_body HEADS) h =
     Inr (h\<lparr>allocated := allocated h |-| fset_of_list (concat CHAINS),
            events := events h @ cluster_trace i CHAINS\<rparr>)"
proof (induction CHAINS arbitrary: i h)
  case Nil
  then have "\<not> i < k" by simp
  then show ?case by (subst for_loop.simps) simp
next
  case (Cons as ass)
  from Cons.prems(1) obtain p rest where dr: "drop i HEADS = p # rest"
    and oc: "owned_chain h p as" and rest: "list_all2 (owned_chain h) rest ass"
    by (auto simp: list_all2_Cons2)
  from drop_eq_Cons [OF dr] have i: "i < length HEADS" and p: "HEADS ! i = p"
    and dr': "drop (Suc i) HEADS = rest" by simp_all
  let ?h1 = "emit (Subscript i) h"
  let ?h2 = "h\<lparr>allocated := allocated h |-| fset_of_list as,
                events := events h @ Subscript i # chain_trace as\<rparr>"
  have sub1: "fset_of_list as |\<subseteq>| allocated ?h1"
    using Cons.prems(4) by (auto simp: emit_def fset_of_list_elem)
  have body: "cluster_body HEADS i h = Inr ?h2"
    using release_chain_chain [of as ?h1 p] oc sub1 i p
    by (simp add: cluster_body_def subscript_def owned_chain_def emit_def)
  have oc2: "list_all2 (owned_chain ?h2) (drop (Suc i) HEADS) ass"
    using rest dr' by (simp add: owned_chain_def [abs_def])
  have sub2: "fset_of_list (concat ass) |\<subseteq>| allocated ?h2"
    using Cons.prems(3,4) by (auto simp: fset_of_list_elem)
  have d2: "distinct (concat ass)" using Cons.prems(3) by simp
  have "for_loop i k (cluster_body HEADS) h = for_loop (Suc i) k (cluster_body HEADS) ?h2"
    using i Cons.prems(2) body by (subst for_loop.simps) simp
  also have "\<dots> = Inr (?h2\<lparr>allocated := allocated ?h2 |-| fset_of_list (concat ass),
            events := events ?h2 @ cluster_trace (Suc i) ass\<rparr>)"
    by (rule Cons.IH [OF oc2 Cons.prems(2) d2 sub2])
  also have "\<dots> = Inr (h\<lparr>allocated := allocated h |-| fset_of_list (concat (as # ass)),
            events := events h @ cluster_trace i (as # ass)\<rparr>)"
    by (simp add: fminus_twice)
  finally show ?case .
qed

lemma no_use_append:
  "no_use_after_release (xs @ ys) \<longleftrightarrow>
     no_use_after_release xs \<and> no_use_after_release ys \<and>
     set (released xs) \<inter> (set (loaded ys) \<union> set (released ys)) = {}"
  by (induction xs rule: no_use_after_release.induct)
    (auto simp: released_append loaded_append)

lemma loaded_loop_trace_Cons: "\<exists>r. loaded (loop_trace (a # as)) = a # r"
  by (cases as) simp_all

lemma set_loaded_loop_trace: "set (loaded (loop_trace as)) = set as"
  by (induction as rule: loop_trace.induct) auto

lemma loaded_chain_trace: "loaded (chain_trace as) = loaded (loop_trace as)"
  by (simp add: chain_trace_def loaded_append)

lemma last_loaded_loop_trace: "as \<noteq> [] \<Longrightarrow> last (loaded (loop_trace as)) = last as"
proof (induction as rule: loop_trace.induct)
  case (3 a b as)
  obtain r where r: "loaded (loop_trace (b # as)) = b # r"
    using loaded_loop_trace_Cons by blast
  with 3 show ?case by simp
qed simp_all

lemma no_use_loop_trace: "distinct as \<Longrightarrow> no_use_after_release (loop_trace as)"
proof (induction as rule: loop_trace.induct)
  case (3 a b as)
  then have ih: "no_use_after_release (loop_trace (b # as))"
    by simp
  have n: "a \<notin> set (b # as)" using 3 by simp
  have "a \<notin> set (loaded (loop_trace (b # as)))"
    using n unfolding set_loaded_loop_trace .
  moreover have "a \<notin> set (butlast (b # as))"
    using n in_set_butlastD by fast
  ultimately show ?case using ih
    by (simp only: loop_trace.simps append.simps no_use_after_release.simps
        released_loop_trace) simp
qed simp_all

lemma no_use_chain_trace:
  "distinct as \<Longrightarrow> as \<noteq> [] \<Longrightarrow> no_use_after_release (chain_trace as)"
  by (simp add: chain_trace_def no_use_append no_use_loop_trace released_loop_trace
      last_notin_butlast)

lemma released_cluster_trace:
  "[] \<notin> set ass \<Longrightarrow> released (cluster_trace i ass) = concat ass"
  by (induction ass arbitrary: i) (auto simp: released_append released_chain_trace)

lemma set_loaded_cluster_trace:
  "set (loaded (cluster_trace i ass)) = set (concat ass)"
  by (induction ass arbitrary: i)
    (auto simp: loaded_append loaded_chain_trace set_loaded_loop_trace)

lemma no_use_cluster_trace:
  "distinct (concat ass) \<Longrightarrow> [] \<notin> set ass \<Longrightarrow> no_use_after_release (cluster_trace i ass)"
proof (induction ass arbitrary: i)
  case Nil
  show ?case by simp
next
  case (Cons as ass)
  from Cons.prems have ne: "as \<noteq> []" and d: "distinct as" by auto
  from Cons have "no_use_after_release (cluster_trace (Suc i) ass)" by simp
  moreover have "no_use_after_release (chain_trace as)"
    using d ne by (rule no_use_chain_trace)
  moreover have "set (released (chain_trace as)) \<inter>
      (set (loaded (cluster_trace (Suc i) ass)) \<union> set (released (cluster_trace (Suc i) ass))) = {}"
  proof -
    from Cons.prems have "[] \<notin> set ass" by auto
    then show ?thesis
      using Cons.prems(1) ne
      by (simp add: released_chain_trace set_loaded_cluster_trace released_cluster_trace)
  qed
  ultimately show ?case by (simp add: no_use_append del: no_use_after_release.simps(2))
qed

lemma remdups_adj_loop_trace:
  "distinct as \<Longrightarrow> remdups_adj (loaded (loop_trace as)) = as"
proof (induction as rule: loop_trace.induct)
  case (3 a b as)
  obtain r where r: "loaded (loop_trace (b # as)) = b # r"
    using loaded_loop_trace_Cons by blast
  from 3 have "remdups_adj (b # r) = b # as" by (simp add: r)
  moreover from 3 have "a \<noteq> b" by auto
  ultimately show ?case by (simp add: r)
qed simp_all

lemma remdups_adj_cluster_trace:
  "distinct (concat ass) \<Longrightarrow> [] \<notin> set ass \<Longrightarrow>
   remdups_adj (loaded (cluster_trace i ass)) = concat ass"
proof (induction ass arbitrary: i)
  case Nil
  show ?case by simp
next
  case (Cons as ass)
  let ?xs = "loaded (loop_trace as)" and ?ys = "loaded (cluster_trace (Suc i) ass)"
  from Cons.prems have ne: "as \<noteq> []" by auto
  have "?ys = [] \<or> last ?xs \<noteq> hd ?ys"
  proof (cases "?ys = []")
    case False
    then have "hd ?ys \<in> set (concat ass)"
      using set_loaded_cluster_trace [of "Suc i" ass] hd_in_set [of ?ys] by simp
    moreover have "last ?xs \<in> set as"
      using ne by (simp add: last_loaded_loop_trace)
    ultimately show ?thesis using Cons.prems(1) by auto
  qed simp
  then have "remdups_adj (?xs @ ?ys) = remdups_adj ?xs @ remdups_adj ?ys"
    by (intro remdups_adj_append') simp
  with Cons show ?case
    by (simp add: loaded_append loaded_chain_trace remdups_adj_loop_trace)
qed

lemma owned_chains_nonempty: "list_all2 (owned_chain h) ps ass \<Longrightarrow> [] \<notin> set ass"
  by (induction rule: list_all2_induct) (auto simp: owned_chain_def)

lemma chain_succ:
  "chain nd p as \<Longrightarrow> Suc j < length as \<Longrightarrow>
   next (nd (as ! j)) = Some (as ! Suc j) \<and> as ! Suc j \<noteq> as ! j"
proof (induction as arbitrary: p j)
  case Nil
  then show ?case by simp
next
  case (Cons a as)
  show ?case
  proof (cases j)
    case 0
    with Cons.prems obtain b bs where as: "as = b # bs" by (cases as) auto
    from Cons.prems have "distinct (a # as)" using chain_distinct by blast
    with Cons.prems 0 as show ?thesis by auto
  next
    case (Suc i)
    with Cons.prems Cons.IH [of "next (nd a)" i] show ?thesis by simp
  qed
qed

lemma owned_chains_succ:
  assumes "list_all2 (owned_chain h) ps ass" and "as \<in> set ass" and "Suc j < length as"
  shows "next (nodes h (as ! j)) = Some (as ! Suc j) \<and> as ! Suc j \<noteq> as ! j"
proof -
  from assms(1,2) obtain p where "owned_chain h p as"
    by (auto simp: list_all2_conv_all_nth in_set_conv_nth)
  then have "chain (nodes h) p as" by (simp add: owned_chain_def)
  then show ?thesis using assms(3) by (rule chain_succ)
qed

lemma chain_last: "as \<noteq> [] \<Longrightarrow> chain nd p as \<Longrightarrow> next (nd (last as)) = None"
  by (induction as arbitrary: p) (auto split: if_splits)

lemma loop_body_eq:
  "loop_body (Some a) g =
     (if a |\<in>| allocated g
      then Inr (next (nodes g a), Some a,
                g\<lparr>allocated := allocated g |-| {|a|},
                  events := events g @ [Load a, Release a]\<rparr>)
      else Inl (InvalidRead, g))"
  by (simp add: loop_body_def deref_next_def c_free_def emit_def)

lemma chain_loop_last:
  assumes "owned_chain g p bs" and "fset_of_list bs |\<subseteq>| allocated g"
  shows "\<exists>g1. chain_loop p 0 g = Inr (Some (last bs), length bs - 1, g1) \<and>
      last bs |\<in>| allocated g1 \<and>
      release_chain p g = c_free (Some (last bs)) g1"
proof -
  from assms(1) have ne: "bs \<noteq> []" and ch: "chain (nodes g) p bs"
    by (simp_all add: owned_chain_def)
  from ne obtain a cs where bs: "bs = a # cs" by (cases bs) auto
  with ch have p: "p = Some a" by simp
  let ?g1 = "g\<lparr>allocated := allocated g |-| fset_of_list (butlast bs),
                events := events g @ loop_trace bs\<rparr>"
  have run: "chain_loop p 0 g = Inr (Some (last bs), length bs - 1, ?g1)"
    using chain_loop_chain [of g a cs 0] ch assms(2) unfolding bs p by simp
  have d: "distinct bs" using ch by (rule chain_distinct)
  have "last bs |\<in>| allocated g"
    using ne assms(2) by (auto simp: fset_of_list_elem)
  then have l: "last bs |\<in>| allocated ?g1"
    using last_notin_butlast [OF d ne] by (simp add: fset_of_list_elem)
  have rc: "release_chain p g = c_free (Some (last bs)) ?g1"
    by (simp add: release_chain_def run)
  from run l rc show ?thesis by (intro exI [of _ ?g1]) simp
qed

lemma for_loop_split:
  "i \<le> j \<Longrightarrow> j \<le> k \<Longrightarrow>
   for_loop i k body h =
     (case for_loop i j body h of Inl e \<Rightarrow> Inl e | Inr h1 \<Rightarrow> for_loop j k body h1)"
proof (induction "j - i" arbitrary: i h)
  case 0
  then have "i = j" by simp
  then show ?case by (simp add: for_loop.simps [of j j])
next
  case (Suc d)
  then have lt: "i < j" "i < k" and d: "d = j - Suc i" and le: "Suc i \<le> j" by simp_all
  show ?case
  proof (cases "body i h")
    case (Inl e)
    with lt show ?thesis by (simp add: for_loop.simps [of i])
  next
    case (Inr h')
    with lt Suc.hyps(1) [OF d le Suc.prems(2), of h'] show ?thesis
      by (simp add: for_loop.simps [of i])
  qed
qed

lemma for_loop_fault:
  assumes "\<And>i h. i < k \<Longrightarrow> fault_of (body i h) \<noteq> Some f"
  shows "fault_of (for_loop i k body h) \<noteq> Some f"
proof (induction "k - i" arbitrary: i h)
  case 0
  then show ?case by (simp add: for_loop.simps [of i] fault_of_def)
next
  case (Suc d)
  then have lt: "i < k" and d: "d = k - Suc i" by simp_all
  show ?case
  proof (cases "body i h")
    case (Inl e)
    with lt assms [OF lt, of h] show ?thesis
      by (simp add: for_loop.simps [of i] fault_of_def)
  next
    case (Inr h')
    with lt Suc.hyps(1) [OF d, of h'] show ?thesis
      by (simp add: for_loop.simps [of i])
  qed
qed

lemma chain_loop_fault:
  "ptr \<noteq> None \<Longrightarrow> fault_of (chain_loop ptr n h) \<noteq> Some NullDeref"
proof (induction ptr n h rule: chain_loop.induct)
  case (1 ptr n h)
  from "1.prems" obtain a where a: "ptr = Some a" by auto
  show ?case
  proof (cases "a |\<in>| allocated h")
    case False
    then show ?thesis
      by (subst chain_loop.simps) (simp add: a deref_next_def fault_of_def)
  next
    case al: True
    show ?thesis
    proof (cases "next (nodes h a)")
      case None
      with al show ?thesis
        by (subst chain_loop.simps) (simp add: a deref_next_def fault_of_def)
    next
      case (Some b)
      let ?h1 = "emit (Load a) h"
      let ?h2 = "?h1\<lparr>allocated := allocated ?h1 |-| {|a|},
                  events := events ?h1 @ [Load a, Release a]\<rparr>"
      have d: "deref_next ptr h = Inr (Some b, ?h1)"
        using al Some by (simp add: a deref_next_def)
      have b: "loop_body ptr ?h1 = Inr (Some b, Some a, ?h2)"
        using al Some by (simp add: a loop_body_eq emit_def)
      have "fault_of (chain_loop (Some b) (Suc n) ?h2) \<noteq> Some NullDeref"
        by (rule "1.IH" [OF d refl refl b refl refl]) simp
      then show ?thesis
        by (subst chain_loop.simps) (simp add: d b)
    qed
  qed
qed

lemma cluster_body_fault:
  "i < length HEADS \<Longrightarrow> HEADS ! i \<noteq> None \<Longrightarrow>
   fault_of (cluster_body HEADS i h) \<noteq> Some NullDeref"
  using chain_loop_fault [of "HEADS ! i" 0 "emit (Subscript i) h"]
  by (auto simp: cluster_body_def subscript_def release_chain_def c_free_def fault_of_def
      split: sum.splits option.splits prod.splits if_splits)

lemma cluster_body_bounds:
  "\<not> i < length HEADS \<Longrightarrow> cluster_body HEADS i h = Inl (OutOfBounds, h)"
  by (simp add: cluster_body_def subscript_def)

lemma scenario_first: "free_cluster_list 1 [Some 10, None, Some 30] scenario_mem =
      Inr \<lparr>allocated = {|20, 21, 30|}, nodes = nodes scenario_mem,
           events = [Subscript 0, Load 10, Release 10]\<rparr>"
  apply (simp add: free_cluster_list_def for_loop.simps cluster_body_def subscript_def
        release_chain_def chain_loop.simps deref_next_def c_free_def emit_def scenario_mem_def)
  done

lemma for_loop_for_each: "for_loop i k body h = for_each [i..<k] body h"
proof (induction "k - i" arbitrary: i h)
  case 0
  then show ?case by (simp add: for_loop.simps [of i])
next
  case (Suc d)
  then have lt: "i < k" and d: "d = k - Suc i" by simp_all
  from Suc.hyps(1) [OF d] lt show ?case
    by (simp add: for_loop.simps [of i] upt_conv_Cons split: sum.splits)
qed

lemma present_append: "present (ps @ qs) = present ps @ present qs"
  by (induction ps rule: present.induct) simp_all

lemma set_present: "set (present ps) = {a. Some a \<in> set ps}"
  by (induction ps rule: present.induct) auto

lemma mset_present: "mset (present ps) = {#the p. p \<in># filter_mset (\<lambda>p. p \<noteq> None) (mset ps)#}"
  by (induction ps rule: present.induct) simp_all

lemma mset_present_perm:
  "mset is = mset js \<Longrightarrow> mset (present (map f is)) = mset (present (map f js))"
proof -
  assume "mset is = mset js"
  then have "mset (map f is) = mset (map f js)" by (metis mset_map)
  then show ?thesis by (simp only: mset_present)
qed

lemma released_slot_trace: "released (slot_trace is S) = present (map ((!) S) is)"
  by (induction "is") (auto simp: released_append split: option.splits)

lemma subscripts_append: "subscripts (xs @ ys) = subscripts xs @ subscripts ys"
  by (induction xs rule: subscripts.induct) simp_all

lemma subscripts_slot_trace: "subscripts (slot_trace is S) = is"
  by (induction "is") (auto simp: subscripts_append split: option.splits)

lemma slot_body_eq:
  "slot_body S i h =
     (if i < length S
      then (case S ! i of
              None \<Rightarrow> Inr (emit (Subscript i) h)
            | Some a \<Rightarrow>
                if a |\<in>| allocated h
                then Inr (h\<lparr>allocated := allocated h |-| {|a|},
                            events := events h @ [Subscript i, Release a]\<rparr>)
                else Inl (InvalidFree, emit (Subscript i) h))
      else Inl (OutOfBounds, h))"
  by (simp add: slot_body_def subscript_def c_free_def emit_def split: option.splits)

lemma for_each_slots:
  "\<forall>i\<in>set is. i < length S \<Longrightarrow> distinct (present (map ((!) S) is)) \<Longrightarrow>
   fset_of_list (present (map ((!) S) is)) |\<subseteq>| allocated h \<Longrightarrow>
   for_each is (slot_body S) h =
     Inr (h\<lparr>allocated := allocated h |-| fset_of_list (present (map ((!) S) is)),
            events := events h @ slot_trace is S\<rparr>)"
proof (induction "is" arbitrary: h)
  case Nil
  show ?case by simp
next
  case (Cons i "is")
  from Cons.prems(1) have i: "i < length S" and rest: "\<forall>i\<in>set is. i < length S" by simp_all
  show ?case
  proof (cases "S ! i")
    case None
    with Cons.prems have d: "distinct (present (map ((!) S) is))"
      and s: "fset_of_list (present (map ((!) S) is)) |\<subseteq>| allocated (emit (Subscript i) h)"
      by (simp_all add: emit_def)
    from Cons.IH [OF rest d s] None i show ?thesis
      by (simp add: slot_body_eq emit_def)
  next
    case (Some a)
    let ?h1 = "h\<lparr>allocated := allocated h |-| {|a|},
                 events := events h @ [Subscript i, Release a]\<rparr>"
    from Some Cons.prems have al: "a |\<in>| allocated h"
      and d: "distinct (present (map ((!) S) is))"
      and s: "fset_of_list (present (map ((!) S) is)) |\<subseteq>| allocated ?h1"
      by (auto simp: fset_of_list_elem)
    from Cons.IH [OF rest d s] Some i al show ?thesis
      by (simp add: slot_body_eq fminus_single_first)
  qed
qed

lemma for_each_slots_conv:
  "for_each is (slot_body S) h = Inr h' \<Longrightarrow>
   (\<forall>i\<in>set is. i < length S) \<and> distinct (present (map ((!) S) is)) \<and>
   fset_of_list (present (map ((!) S) is)) |\<subseteq>| allocated h"
proof (induction "is" arbitrary: h)
  case Nil
  show ?case by simp
next
  case (Cons i "is")
  from Cons.prems obtain h1 where b: "slot_body S i h = Inr h1"
    and r: "for_each is (slot_body S) h1 = Inr h'"
    by (auto split: sum.splits)
  note ih = Cons.IH [OF r]
  from b have i: "i < length S" by (auto simp: slot_body_eq split: if_splits)
  show ?case
  proof (cases "S ! i")
    case None
    with b i have "allocated h1 = allocated h" by (auto simp: slot_body_eq emit_def)
    with ih None i show ?thesis by simp
  next
    case (Some a)
    with b i have al: "a |\<in>| allocated h" and h1: "allocated h1 = allocated h |-| {|a|}"
      by (auto simp: slot_body_eq split: if_splits)
    from ih h1 have "a \<notin> set (present (map ((!) S) is))"
      and "fset_of_list (present (map ((!) S) is)) |\<subseteq>| allocated h"
      by (auto simp: fset_of_list_elem)
    with ih Some i al show ?thesis by simp
  qed
qed

lemma for_each_slots_any:
  "\<exists>es. events (mem_of (for_each is (slot_body S) h)) = events h @ es \<and>
     set (map Some (released es)) \<subseteq> set (map ((!) S) (filter (\<lambda>i. i < length S) is)) \<and>
     allocated (mem_of (for_each is (slot_body S) h)) = allocated h |-| fset_of_list (released es) \<and>
     nodes (mem_of (for_each is (slot_body S) h)) = nodes h"
proof (induction "is" arbitrary: h)
  case Nil
  show ?case by (simp add: mem_of_def)
next
  case (Cons i "is")
  show ?case
  proof (cases "slot_body S i h")
    case (Inl e)
    then have "mem_of (for_each (i # is) (slot_body S) h) = h \<or>
       mem_of (for_each (i # is) (slot_body S) h) = emit (Subscript i) h"
      by (auto simp: slot_body_eq mem_of_def split: if_splits option.splits)
    then show ?thesis
    proof
      assume m: "mem_of (for_each (i # is) (slot_body S) h) = h"
      show ?thesis unfolding m by (intro exI [of _ "[]"]) simp
    next
      assume m: "mem_of (for_each (i # is) (slot_body S) h) = emit (Subscript i) h"
      show ?thesis unfolding m by (intro exI [of _ "[Subscript i]"]) (simp add: emit_def)
    qed
  next
    case (Inr h1)
    then have i: "i < length S" by (auto simp: slot_body_eq split: if_splits)
    from Inr i obtain es1 where e1: "events h1 = events h @ es1"
      and r1: "set (map Some (released es1)) \<subseteq> {S ! i}"
      and a1: "allocated h1 = allocated h |-| fset_of_list (released es1)"
      and n1: "nodes h1 = nodes h"
    proof (cases "S ! i")
      case None
      with Inr i that [of "[Subscript i]"] show ?thesis
        by (auto simp: slot_body_eq emit_def)
    next
      case (Some a)
      with Inr i that [of "[Subscript i, Release a]"] show ?thesis
        by (auto simp: slot_body_eq split: if_splits)
    qed
    from Cons.IH [of h1] obtain es2 where
      e2: "events (mem_of (for_each is (slot_body S) h1)) = events h1 @ es2"
      and r2: "set (map Some (released es2)) \<subseteq> set (map ((!) S) (filter (\<lambda>i. i < length S) is))"
      and a2: "allocated (mem_of (for_each is (slot_body S) h1)) =
                allocated h1 |-| fset_of_list (released es2)"
      and n2: "nodes (mem_of (for_each is (slot_body S) h1)) = nodes h1"
      by blast
    have m: "for_each (i # is) (slot_body S) h = for_each is (slot_body S) h1"
      using Inr by simp
    show ?thesis
      unfolding m using e1 r1 a1 n1 e2 r2 a2 n2 i
      by (intro exI [of _ "es1 @ es2"])
        (auto simp: released_append fminus_twice)
  qed
qed

lemma map_nth_upt: "i \<le> length xs \<Longrightarrow> map ((!) xs) [0..<i] = take i xs"
  by (simp add: list_eq_iff_nth_eq)

lemma map_Some_present: "None \<notin> set ps \<Longrightarrow> map Some (present ps) = ps"
  by (induction ps rule: present.induct) simp_all

lemma point_body_slot_body: "point_body POINTS = slot_body (map values POINTS)"
  by (intro ext) (simp add: point_body_def slot_body_def subscript_def)

lemma free_points_for_each:
  "free_points n POINTS i h = for_each [0..<i] (slot_body (map values POINTS)) h"
  by (simp add: free_points_def for_loop_for_each point_body_slot_body)

lemma free_category_indices_for_each:
  "free_category_indices c SLOTS h = for_each [0..<c] (slot_body SLOTS) h"
  by (simp add: free_category_indices_def for_loop_for_each)

lemma free_distances_for_each:
  "free_distances n SLOTS h = for_each [0..<n] (slot_body SLOTS) h"
  by (simp add: free_distances_def for_loop_for_each)

lemma for_each_slots_prefix:
  "\<forall>i\<in>set is. i < length S \<Longrightarrow>
   for_each is (slot_body (S @ R)) h = for_each is (slot_body S) h"
proof (induction "is" arbitrary: h)
  case Nil
  show ?case by simp
next
  case (Cons i "is")
  then have "slot_body (S @ R) i h = slot_body S i h"
    by (simp add: slot_body_eq nth_append)
  with Cons show ?case by (simp split: sum.splits)
qed

section \<open>Releasing the cluster lists\<close>

text \<open>
  C1. Let the array hold \<open>k\<close> heads, head \<open>i\<close> starting a null-terminated acyclic chain
  of at least one node (\<open>owned_chain\<close>), the nodes of all chains allocated and no node
  shared between chains (\<open>distinct (concat CHAINS)\<close>: the array is \<open>k\<close> chains of
  altogether \<open>\<Sum> m\<^sub>i\<close> nodes). Then \<^verbatim>\<open>free_cluster_list\<close> returns without a fault, the
  blocks it releases are exactly the nodes of the chains, chain after chain and each
  chain front to back, no node twice, \<open>\<Sum> m\<^sub>i\<close> releases in all, and afterwards none of
  the nodes is allocated. The theorem holds for every \<open>k\<close>, so for every \<open>k \<ge> 1\<close>.
\<close>

theorem free_cluster_list_releases_each_node_once:
  assumes "length PTR_CLUSTER_HEADS = k"
    and "list_all2 (owned_chain h) PTR_CLUSTER_HEADS CHAINS"
    and "distinct (concat CHAINS)"
    and "fset_of_list (concat CHAINS) |\<subseteq>| allocated h"
  shows "\<exists>h' es. free_cluster_list k PTR_CLUSTER_HEADS h = Inr h' \<and>
      events h' = events h @ es \<and>
      released es = concat CHAINS \<and>
      distinct (released es) \<and>
      length (released es) = sum_list (map length CHAINS) \<and>
      allocated h' = allocated h |-| fset_of_list (concat CHAINS) \<and>
      fset_of_list (concat CHAINS) |\<inter>| allocated h' = {||}"
proof -
  let ?es = "cluster_trace 0 CHAINS"
  let ?h' = "h\<lparr>allocated := allocated h |-| fset_of_list (concat CHAINS),
                events := events h @ ?es\<rparr>"
  have run: "free_cluster_list k PTR_CLUSTER_HEADS h = Inr ?h'"
    unfolding free_cluster_list_def
    using cluster_loop_chains [of h 0 PTR_CLUSTER_HEADS CHAINS k] assms by simp
  have rel: "released ?es = concat CHAINS"
    using owned_chains_nonempty [OF assms(2)] by (rule released_cluster_trace)
  have "fset_of_list (concat CHAINS) |\<inter>| allocated ?h' = {||}"
    by auto
  with run rel assms(3) show ?thesis
    by (simp add: length_concat)
qed

theorem free_cluster_list_releases_each_node_once_witness:
  "length [Some (10::nat), Some 20, Some 30] = (3::nat) \<and>
   list_all2 (owned_chain scenario_mem) [Some 10, Some 20, Some 30] [[10], [20, 21], [30]] \<and>
   distinct (concat [[10], [20, 21], [30::nat]]) \<and>
   fset_of_list (concat [[10], [20, 21], [30]]) |\<subseteq>| allocated scenario_mem \<and>
   (\<exists>h' es. free_cluster_list 3 [Some 10, Some 20, Some 30] scenario_mem = Inr h' \<and>
      events h' = events scenario_mem @ es \<and>
      released es = [10, 20, 21, 30] \<and>
      length (released es) = 4 \<and>
      allocated h' = {||})"
proof -
  have a: "length [Some (10::nat), Some 20, Some 30] = (3::nat)" by simp
  have b: "list_all2 (owned_chain scenario_mem) [Some 10, Some 20, Some 30] [[10], [20, 21], [30]]"
    by (simp add: owned_chain_def scenario_mem_def)
  have c: "distinct (concat [[10], [20, 21], [30::nat]])" by simp
  have d: "fset_of_list (concat [[10], [20, 21], [30]]) |\<subseteq>| allocated scenario_mem"
    by (simp add: scenario_mem_def)
  have e: "allocated scenario_mem |-| fset_of_list (concat [[10], [20, 21], [30]]) = {||}"
    by (auto simp: scenario_mem_def)
  from free_cluster_list_releases_each_node_once [OF a b c d]
  obtain h' es where "free_cluster_list 3 [Some 10, Some 20, Some 30] scenario_mem = Inr h'"
    "events h' = events scenario_mem @ es" "released es = concat [[10], [20, 21], [30]]"
    "length (released es) = sum_list (map length [[10], [20, 21], [30::nat]])"
    "allocated h' = allocated scenario_mem |-| fset_of_list (concat [[10], [20, 21], [30]])"
    by blast
  then have "\<exists>h' es. free_cluster_list 3 [Some 10, Some 20, Some 30] scenario_mem = Inr h' \<and>
      events h' = events scenario_mem @ es \<and>
      released es = [10, 20, 21, 30] \<and>
      length (released es) = 4 \<and>
      allocated h' = {||}"
    unfolding e by (intro exI [of _ h'] exI [of _ es]) simp
  with a b c d show ?thesis by blast
qed

text \<open>
  C4. A null head is a null dereference: when the heads before index \<open>j\<close> have been
  released without a fault and head \<open>j < k\<close> is \<^verbatim>\<open>NULL\<close>, the routine stops in the
  fault \<open>NullDeref\<close>, raised by the loop guard \<^verbatim>\<open>ptr->next\<close> right after the head was
  read from the array. When no head among the first \<open>k\<close> is \<^verbatim>\<open>NULL\<close>, the routine never
  ends in \<open>NullDeref\<close>, whatever the memory holds.
\<close>

theorem free_cluster_list_null_head:
  "(j < k \<and> j < length PTR_CLUSTER_HEADS \<and> PTR_CLUSTER_HEADS ! j = None \<and>
      free_cluster_list j PTR_CLUSTER_HEADS h = Inr h1
     \<longrightarrow> free_cluster_list k PTR_CLUSTER_HEADS h = Inl (NullDeref, emit (Subscript j) h1)) \<and>
   (None \<notin> set (take k PTR_CLUSTER_HEADS)
     \<longrightarrow> fault_of (free_cluster_list k PTR_CLUSTER_HEADS h) \<noteq> Some NullDeref)"
proof (intro conjI impI)
  assume "j < k \<and> j < length PTR_CLUSTER_HEADS \<and> PTR_CLUSTER_HEADS ! j = None \<and>
      free_cluster_list j PTR_CLUSTER_HEADS h = Inr h1"
  then have j: "j < k" "j < length PTR_CLUSTER_HEADS" "PTR_CLUSTER_HEADS ! j = None"
    and pre: "for_loop 0 j (cluster_body PTR_CLUSTER_HEADS) h = Inr h1"
    by (simp_all add: free_cluster_list_def)
  have "cluster_body PTR_CLUSTER_HEADS j h1 = Inl (NullDeref, emit (Subscript j) h1)"
    using j(2,3)
    by (simp add: cluster_body_def subscript_def release_chain_def chain_loop.simps [of None]
        deref_next_def)
  then have "for_loop j k (cluster_body PTR_CLUSTER_HEADS) h1 = Inl (NullDeref, emit (Subscript j) h1)"
    using j(1) by (simp add: for_loop.simps [of j])
  then show "free_cluster_list k PTR_CLUSTER_HEADS h = Inl (NullDeref, emit (Subscript j) h1)"
    using for_loop_split [of 0 j k "cluster_body PTR_CLUSTER_HEADS" h] j(1) pre
    by (simp add: free_cluster_list_def)
next
  assume nn: "None \<notin> set (take k PTR_CLUSTER_HEADS)"
  have "fault_of (cluster_body PTR_CLUSTER_HEADS i g) \<noteq> Some NullDeref" if "i < k" for i g
  proof (cases "i < length PTR_CLUSTER_HEADS")
    case True
    with that have "PTR_CLUSTER_HEADS ! i \<in> set (take k PTR_CLUSTER_HEADS)"
      by (auto simp: in_set_conv_nth intro!: exI [of _ i])
    with nn have "PTR_CLUSTER_HEADS ! i \<noteq> None" by metis
    with True show ?thesis by (rule cluster_body_fault)
  next
    case False
    then show ?thesis by (simp add: cluster_body_bounds fault_of_def)
  qed
  then show "fault_of (free_cluster_list k PTR_CLUSTER_HEADS h) \<noteq> Some NullDeref"
    unfolding free_cluster_list_def by (rule for_loop_fault)
qed

theorem free_cluster_list_null_head_witness:
  "free_cluster_list 1 [Some 10, None, Some 30] scenario_mem =
      Inr \<lparr>allocated = {|20, 21, 30|}, nodes = nodes scenario_mem,
           events = [Subscript 0, Load 10, Release 10]\<rparr> \<and>
   free_cluster_list 3 [Some 10, None, Some 30] scenario_mem =
      Inl (NullDeref, \<lparr>allocated = {|20, 21, 30|}, nodes = nodes scenario_mem,
           events = [Subscript 0, Load 10, Release 10, Subscript 1]\<rparr>) \<and>
   None \<notin> set (take 3 [Some (10::nat), Some 20, Some 30]) \<and>
   fault_of (free_cluster_list 3 [Some 10, Some 20, Some 30] scenario_mem) \<noteq> Some NullDeref"
proof -
  have pre: "free_cluster_list 1 [Some 10, None, Some 30] scenario_mem =
      Inr \<lparr>allocated = {|20, 21, 30|}, nodes = nodes scenario_mem,
           events = [Subscript 0, Load 10, Release 10]\<rparr>"
    by (rule scenario_first)
  have nn: "None \<notin> set (take 3 [Some (10::nat), Some 20, Some 30])" by simp
  from free_cluster_list_null_head [of 1 3 "[Some 10, None, Some 30]" scenario_mem
      "\<lparr>allocated = {|20, 21, 30|}, nodes = nodes scenario_mem,
           events = [Subscript 0, Load 10, Release 10]\<rparr>"] pre
  have "free_cluster_list 3 [Some 10, None, Some 30] scenario_mem =
      Inl (NullDeref, \<lparr>allocated = {|20, 21, 30|}, nodes = nodes scenario_mem,
           events = [Subscript 0, Load 10, Release 10, Subscript 1]\<rparr>)"
    by (simp add: emit_def)
  moreover from free_cluster_list_null_head [of 0 3 "[Some 10, Some 20, Some 30]" scenario_mem] nn
  have "fault_of (free_cluster_list 3 [Some 10, Some 20, Some 30] scenario_mem) \<noteq> Some NullDeref"
    by blast
  ultimately show ?thesis using pre nn by blast
qed

text \<open>
  C5. During the traversal of each chain, the pointer saved in \<^verbatim>\<open>prev\<close> before
  advancing is the node the iteration is at, which is the node about to be released
  (the node visited next is not saved: it becomes \<^verbatim>\<open>ptr\<close>). One iteration at the
  node \<open>a\<close> (first conjunct) saves \<open>a\<close>, moves \<^verbatim>\<open>ptr\<close> one link forward to the
  successor of \<open>a\<close>, and releases \<open>a\<close> after that read (\<open>Load a\<close> precedes
  \<open>Release a\<close>); the released block is the saved one. In a well-formed chain the
  successor is the next node of the chain and a different node, so a node that is not
  the last of its chain is released only after \<^verbatim>\<open>ptr\<close> has moved past it (second
  conjunct). The last node of a chain is released after the loop by \<^verbatim>\<open>free(ptr)\<close>,
  while \<^verbatim>\<open>ptr\<close> still points to it and it is still allocated (third conjunct). The
  whole run on well-formed chains (fourth conjunct): the events are those of
  \<open>cluster_trace\<close>; no node is read or released after its release; and the nodes are
  read in the order of the chains, strictly forward, never returning to an earlier
  node (two reads of one node are adjacent).
\<close>

theorem free_cluster_list_traversal:
  assumes "length PTR_CLUSTER_HEADS = k"
    and "list_all2 (owned_chain h) PTR_CLUSTER_HEADS CHAINS"
    and "distinct (concat CHAINS)"
    and "fset_of_list (concat CHAINS) |\<subseteq>| allocated h"
  shows "loop_body (Some a) g =
      (if a |\<in>| allocated g
       then Inr (next (nodes g a), Some a,
                 g\<lparr>allocated := allocated g |-| {|a|},
                   events := events g @ [Load a, Release a]\<rparr>)
       else Inl (InvalidRead, g)) \<and>
    (as \<in> set CHAINS \<and> Suc j < length as \<longrightarrow>
       next (nodes h (as ! j)) = Some (as ! Suc j) \<and> as ! Suc j \<noteq> as ! j) \<and>
    (owned_chain g2 q bs \<and> fset_of_list bs |\<subseteq>| allocated g2 \<longrightarrow>
       (\<exists>g1. chain_loop q 0 g2 = Inr (Some (last bs), length bs - 1, g1) \<and>
          last bs |\<in>| allocated g1 \<and>
          release_chain q g2 = c_free (Some (last bs)) g1)) \<and>
    (\<exists>h' es. free_cluster_list k PTR_CLUSTER_HEADS h = Inr h' \<and>
      events h' = events h @ es \<and>
      es = cluster_trace 0 CHAINS \<and>
      no_use_after_release es \<and>
      remdups_adj (loaded es) = concat CHAINS)"
proof -
  let ?es = "cluster_trace 0 CHAINS"
  let ?h' = "h\<lparr>allocated := allocated h |-| fset_of_list (concat CHAINS),
                events := events h @ ?es\<rparr>"
  have ne: "[] \<notin> set CHAINS" using assms(2) by (rule owned_chains_nonempty)
  have run: "free_cluster_list k PTR_CLUSTER_HEADS h = Inr ?h'"
    unfolding free_cluster_list_def
    using cluster_loop_chains [of h 0 PTR_CLUSTER_HEADS CHAINS k] assms by simp
  have "no_use_after_release ?es"
    using assms(3) ne by (rule no_use_cluster_trace)
  moreover have "remdups_adj (loaded ?es) = concat CHAINS"
    using assms(3) ne by (rule remdups_adj_cluster_trace)
  ultimately have "\<exists>h' es. free_cluster_list k PTR_CLUSTER_HEADS h = Inr h' \<and>
      events h' = events h @ es \<and> es = cluster_trace 0 CHAINS \<and>
      no_use_after_release es \<and> remdups_adj (loaded es) = concat CHAINS"
    using run by simp
  moreover have "next (nodes h (as ! j)) = Some (as ! Suc j) \<and> as ! Suc j \<noteq> as ! j"
    if "as \<in> set CHAINS \<and> Suc j < length as"
    using owned_chains_succ [OF assms(2), of as j] that by blast
  moreover have "\<exists>g1. chain_loop q 0 g2 = Inr (Some (last bs), length bs - 1, g1) \<and>
          last bs |\<in>| allocated g1 \<and>
          release_chain q g2 = c_free (Some (last bs)) g1"
    if "owned_chain g2 q bs \<and> fset_of_list bs |\<subseteq>| allocated g2"
    using chain_loop_last [of g2 q bs] that by blast
  ultimately show ?thesis using loop_body_eq [of a g] by blast
qed

theorem free_cluster_list_traversal_witness:
  "length [Some (10::nat), Some 20, Some 30] = (3::nat) \<and>
   list_all2 (owned_chain scenario_mem) [Some 10, Some 20, Some 30] [[10], [20, 21], [30]] \<and>
   distinct (concat [[10], [20, 21], [30::nat]]) \<and>
   fset_of_list (concat [[10], [20, 21], [30]]) |\<subseteq>| allocated scenario_mem \<and>
   loop_body (Some 20) scenario_mem =
     Inr (Some 21, Some 20,
          scenario_mem\<lparr>allocated := {|10, 21, 30|}, events := [Load 20, Release 20]\<rparr>) \<and>
   [20, 21] \<in> set [[10], [20, 21], [30::nat]] \<and> Suc 0 < length [20, 21::nat] \<and>
   next (nodes scenario_mem 20) = Some 21 \<and>
   owned_chain scenario_mem (Some 20) [20, 21] \<and>
   fset_of_list [20, 21] |\<subseteq>| allocated scenario_mem \<and>
   (\<exists>g1. chain_loop (Some 20) 0 scenario_mem = Inr (Some 21, 1, g1) \<and>
      21 |\<in>| allocated g1 \<and>
      release_chain (Some 20) scenario_mem = c_free (Some 21) g1) \<and>
   (\<exists>h'. free_cluster_list 3 [Some 10, Some 20, Some 30] scenario_mem = Inr h' \<and>
      events h' =
        [Subscript 0, Load 10, Release 10,
         Subscript 1, Load 20, Load 20, Release 20, Load 21, Release 21,
         Subscript 2, Load 30, Release 30] \<and>
      no_use_after_release (events h') \<and>
      remdups_adj (loaded (events h')) = [10, 20, 21, 30])"
proof -
  have a: "length [Some (10::nat), Some 20, Some 30] = (3::nat)" by simp
  have b: "list_all2 (owned_chain scenario_mem) [Some 10, Some 20, Some 30] [[10], [20, 21], [30]]"
    by (simp add: owned_chain_def scenario_mem_def)
  have c: "distinct (concat [[10], [20, 21], [30::nat]])" by simp
  have d: "fset_of_list (concat [[10], [20, 21], [30]]) |\<subseteq>| allocated scenario_mem"
    by (simp add: scenario_mem_def)
  have e: "allocated scenario_mem |-| {|20|} = {|10, 21, 30|}"
    by (auto simp: scenario_mem_def)
  have f: "cluster_trace 0 [[10], [20, 21], [30]] =
        [Subscript 0, Load 10, Release 10,
         Subscript 1, Load 20, Load 20, Release 20, Load 21, Release 21,
         Subscript 2, Load 30, Release 30]"
    by (simp add: chain_trace_def)
  have m: "[20, 21] \<in> set [[10], [20, 21], [30::nat]]" "Suc 0 < length [20, 21::nat]"
    by simp_all
  have o: "owned_chain scenario_mem (Some 20) [20, 21]"
    "fset_of_list [20, 21] |\<subseteq>| allocated scenario_mem"
    by (simp_all add: owned_chain_def scenario_mem_def)
  note t = free_cluster_list_traversal [OF a b c d,
      of 20 scenario_mem "[20, 21]" 0 scenario_mem "Some 20" "[20, 21]"]
  from t m have n: "next (nodes scenario_mem 20) = Some 21" by simp
  from t o obtain g1 where "chain_loop (Some 20) 0 scenario_mem =
      Inr (Some (last [20, 21]), length [20, 21::nat] - 1, g1)"
    "last [20, 21] |\<in>| allocated g1"
    "release_chain (Some 20) scenario_mem = c_free (Some (last [20, 21])) g1"
    by blast
  then have l: "\<exists>g1. chain_loop (Some 20) 0 scenario_mem = Inr (Some 21, 1, g1) \<and>
      21 |\<in>| allocated g1 \<and>
      release_chain (Some 20) scenario_mem = c_free (Some 21) g1"
    by (intro exI [of _ g1]) simp
  from t have "loop_body (Some 20) scenario_mem =
     Inr (Some 21, Some 20,
          scenario_mem\<lparr>allocated := {|10, 21, 30|}, events := [Load 20, Release 20]\<rparr>)"
    unfolding e [symmetric] by (simp add: scenario_mem_def)
  moreover from t obtain h' where "free_cluster_list 3 [Some 10, Some 20, Some 30] scenario_mem = Inr h'"
    "events h' = events scenario_mem @ cluster_trace 0 [[10], [20, 21], [30]]"
    "no_use_after_release (cluster_trace 0 [[10], [20, 21], [30]])"
    "remdups_adj (loaded (cluster_trace 0 [[10], [20, 21], [30]])) = concat [[10], [20, 21], [30]]"
    by blast
  then have "\<exists>h'. free_cluster_list 3 [Some 10, Some 20, Some 30] scenario_mem = Inr h' \<and>
      events h' =
        [Subscript 0, Load 10, Release 10,
         Subscript 1, Load 20, Load 20, Release 20, Load 21, Release 21,
         Subscript 2, Load 30, Release 30] \<and>
      no_use_after_release (events h') \<and>
      remdups_adj (loaded (events h')) = [10, 20, 21, 30]"
    unfolding f by (intro exI [of _ h']) (simp add: scenario_mem_def)
  ultimately show ?thesis using a b c d m n o l by (intro conjI)
qed

text \<open>
  The saved pointer is not the node visited next, and not every node is released after
  \<^verbatim>\<open>ptr\<close> has moved past it. In the scenario, the iteration at node 20 saves 20 in
  \<^verbatim>\<open>prev\<close> while the node visited next, 21, goes to \<^verbatim>\<open>ptr\<close>; and on the chain of
  the single node 10 the loop makes no iteration and leaves \<^verbatim>\<open>ptr\<close> at 10, which
  \<^verbatim>\<open>free(ptr)\<close> then releases.
\<close>

theorem free_cluster_list_traversal_counterexample:
  "loop_body (Some 20) scenario_mem =
     Inr (Some 21, Some 20,
          scenario_mem\<lparr>allocated := {|10, 21, 30|}, events := [Load 20, Release 20]\<rparr>) \<and>
   Some (20::nat) \<noteq> Some 21 \<and>
   chain_loop (Some 10) 0 scenario_mem = Inr (Some 10, 0, emit (Load 10) scenario_mem) \<and>
   release_chain (Some 10) scenario_mem = c_free (Some 10) (emit (Load 10) scenario_mem) \<and>
   c_free (Some 10) (emit (Load 10) scenario_mem) =
     Inr (scenario_mem\<lparr>allocated := {|20, 21, 30|}, events := [Load 10, Release 10]\<rparr>)"
proof -
  have a: "allocated scenario_mem |-| {|20|} = {|10, 21, 30|}"
    "allocated scenario_mem |-| {|10|} = {|20, 21, 30|}"
    by (auto simp: scenario_mem_def)
  have b: "loop_body (Some 20) scenario_mem =
     Inr (Some 21, Some 20,
          scenario_mem\<lparr>allocated := {|10, 21, 30|}, events := [Load 20, Release 20]\<rparr>)"
    unfolding a(1) [symmetric] by (simp add: loop_body_eq scenario_mem_def)
  have c: "chain_loop (Some 10) 0 scenario_mem = Inr (Some 10, 0, emit (Load 10) scenario_mem)"
    by (simp add: chain_loop.simps deref_next_def scenario_mem_def)
  have d: "release_chain (Some 10) scenario_mem = c_free (Some 10) (emit (Load 10) scenario_mem)"
    by (simp add: release_chain_def c)
  have e: "c_free (Some 10) (emit (Load 10) scenario_mem) =
     Inr (scenario_mem\<lparr>allocated := {|20, 21, 30|}, events := [Load 10, Release 10]\<rparr>)"
    unfolding a(2) [symmetric] by (simp add: c_free_def emit_def scenario_mem_def)
  have f: "Some (20::nat) \<noteq> Some 21" by simp
  from b f c d e show ?thesis by (intro conjI)
qed

text \<open>
  C6. On a null-terminated acyclic chain of \<open>m \<ge> 1\<close> allocated nodes the \<^verbatim>\<open>while\<close>
  loop returns (the function is total, and here it ends without a fault) after exactly
  \<open>m - 1\<close> iterations, so \<open>m\<close> is the number of iterations plus one. It stops at the
  last node, whose successor is absent; the iterations have released the \<open>m - 1\<close>
  nodes before it, and the last node is still allocated when the loop exits. Lines 16
  to 22 then release that node with \<^verbatim>\<open>free(ptr)\<close>, after which all \<open>m\<close> nodes are
  released.
\<close>

theorem chain_loop_iterations:
  assumes "owned_chain h p as" and "fset_of_list as |\<subseteq>| allocated h"
  shows "\<exists>h1. chain_loop p 0 h = Inr (Some (last as), length as - 1, h1) \<and>
      length as = Suc (length as - 1) \<and>
      next (nodes h1 (last as)) = None \<and>
      released (drop (length (events h)) (events h1)) = butlast as \<and>
      allocated h1 = allocated h |-| fset_of_list (butlast as) \<and>
      last as |\<in>| allocated h1 \<and>
      release_chain p h = c_free (Some (last as)) h1 \<and>
      c_free (Some (last as)) h1 =
        Inr (h1\<lparr>allocated := allocated h |-| fset_of_list as,
                 events := events h1 @ [Release (last as)]\<rparr>)"
proof -
  from assms(1) have ne: "as \<noteq> []" and ch: "chain (nodes h) p as"
    by (simp_all add: owned_chain_def)
  from ne obtain a bs where as: "as = a # bs" by (cases as) auto
  with ch have p: "p = Some a" by simp
  let ?h1 = "h\<lparr>allocated := allocated h |-| fset_of_list (butlast as),
                events := events h @ loop_trace as\<rparr>"
  have run: "chain_loop p 0 h = Inr (Some (last as), length as - 1, ?h1)"
    using chain_loop_chain [of h a bs 0] ch assms(2) unfolding as p by simp
  have d: "distinct as" using ch by (rule chain_distinct)
  have "last as |\<in>| allocated h"
    using ne assms(2) by (auto simp: fset_of_list_elem)
  then have l: "last as |\<in>| allocated ?h1"
    using last_notin_butlast [OF d ne] by (simp add: fset_of_list_elem)
  have nx: "next (nodes ?h1 (last as)) = None"
    using chain_last [OF ne ch] by simp
  have rel: "released (drop (length (events h)) (events ?h1)) = butlast as"
    by (simp add: released_loop_trace)
  have fr: "c_free (Some (last as)) ?h1 =
        Inr (?h1\<lparr>allocated := allocated h |-| fset_of_list as,
                 events := events ?h1 @ [Release (last as)]\<rparr>)"
    using l by (simp add: c_free_def emit_def fset_butlast_last [OF ne])
  have rc: "release_chain p h = c_free (Some (last as)) ?h1"
    by (simp add: release_chain_def run)
  from ne have "length as = Suc (length as - 1)" by (cases as) simp_all
  with run nx rel l fr rc show ?thesis
    by (intro exI [of _ ?h1]) simp
qed

theorem chain_loop_iterations_witness:
  "owned_chain scenario_mem (Some 20) [20, 21] \<and>
   fset_of_list [20, 21] |\<subseteq>| allocated scenario_mem \<and>
   (\<exists>h1. chain_loop (Some 20) 0 scenario_mem = Inr (Some 21, 1, h1) \<and>
      next (nodes h1 21) = None \<and> 21 |\<in>| allocated h1 \<and>
      release_chain (Some 20) scenario_mem = c_free (Some 21) h1)"
proof -
  have a: "owned_chain scenario_mem (Some 20) [20, 21]"
    by (simp add: owned_chain_def scenario_mem_def)
  have b: "fset_of_list [20, 21] |\<subseteq>| allocated scenario_mem"
    by (simp add: scenario_mem_def)
  from chain_loop_iterations [OF a b]
  obtain h1 where "chain_loop (Some 20) 0 scenario_mem = Inr (Some (last [20, 21]), length [20, 21::nat] - 1, h1)"
    "next (nodes h1 (last [20, 21])) = None" "last [20, 21] |\<in>| allocated h1"
    "release_chain (Some 20) scenario_mem = c_free (Some (last [20, 21])) h1"
    by blast
  then have "\<exists>h1. chain_loop (Some 20) 0 scenario_mem = Inr (Some 21, 1, h1) \<and>
      next (nodes h1 21) = None \<and> 21 |\<in>| allocated h1 \<and>
      release_chain (Some 20) scenario_mem = c_free (Some 21) h1"
    by (intro exI [of _ h1]) simp
  with a b show ?thesis by blast
qed

section \<open>Empty cluster array\<close>

text \<open>
  C9. With \<open>k = 0\<close> the routine \<^verbatim>\<open>free_cluster_list\<close> returns at once, whatever the
  array of heads holds (also null heads, also no heads at all): the result is the
  memory it was given, so no head was read (no event was logged) and no block was
  released. No precondition on the heads is needed.
\<close>

theorem free_cluster_list_zero:
  "free_cluster_list 0 PTR_CLUSTER_HEADS h = Inr h"
  by (simp add: free_cluster_list_def for_loop.simps)

section \<open>Releasing the points\<close>

text \<open>
  C2. Let \<open>POINTS\<close> hold \<open>n\<close> points, \<open>validCount \<le> n\<close>, and let the \<^verbatim>\<open>values\<close> blocks
  of the points before \<open>validCount\<close> be allocated and pairwise different. Then
  \<^verbatim>\<open>free_points\<close> returns without a fault; it reads the cells \<open>0, \<dots>, validCount - 1\<close>
  of the array and no other cell; it releases exactly the \<^verbatim>\<open>values\<close> blocks of these
  points, in index order, which is one release per index when none of them is
  \<^verbatim>\<open>NULL\<close>; and the result is the same whatever the array holds from index
  \<open>validCount\<close> on (last conjunct), so nothing of those points is read or released.
\<close>

theorem free_points_releases_valid_prefix:
  assumes "length POINTS = n" and "validCount \<le> n"
    and "distinct (present (map values (take validCount POINTS)))"
    and "fset_of_list (present (map values (take validCount POINTS))) |\<subseteq>| allocated h"
  shows "\<exists>h' es. free_points n POINTS validCount h = Inr h' \<and>
      events h' = events h @ es \<and>
      subscripts es = [0..<validCount] \<and>
      released es = present (map values (take validCount POINTS)) \<and>
      (None \<notin> set (map values (take validCount POINTS)) \<longrightarrow>
         map Some (released es) = map values (take validCount POINTS) \<and>
         length (released es) = validCount) \<and>
      allocated h' = allocated h |-| fset_of_list (released es) \<and>
      (\<forall>REST. free_points n (take validCount POINTS @ REST) validCount h = Inr h')"
proof -
  let ?S = "map values POINTS" and ?V = "map values (take validCount POINTS)"
  let ?es = "slot_trace [0..<validCount] ?S"
  let ?h' = "h\<lparr>allocated := allocated h |-| fset_of_list (present ?V),
                events := events h @ ?es\<rparr>"
  have le: "validCount \<le> length ?S" using assms(1,2) by simp
  have V: "map ((!) ?S) [0..<validCount] = ?V"
    using map_nth_upt [OF le] by (simp add: take_map)
  have b: "\<forall>i\<in>set [0..<validCount]. i < length ?S" using le by simp
  have run: "free_points n POINTS validCount h = Inr ?h'"
    using for_each_slots [of "[0..<validCount]" ?S h] b assms(3,4)
    by (simp add: free_points_for_each V)
  have rel: "released ?es = present ?V"
    by (simp add: released_slot_trace V)
  have cnt: "map Some (released ?es) = ?V \<and> length (released ?es) = validCount"
    if "None \<notin> set ?V"
  proof -
    from that have m: "map Some (released ?es) = ?V" unfolding rel by (rule map_Some_present)
    have "length (released ?es) = length (map Some (released ?es))" by simp
    also have "\<dots> = length ?V" by (simp only: m)
    also have "\<dots> = validCount" using le by simp
    finally show ?thesis using m by simp
  qed
  have tail: "free_points n (take validCount POINTS @ REST) validCount h = Inr ?h'" for REST
  proof -
    have b': "\<forall>i\<in>set [0..<validCount]. i < length ?V" using le by simp
    have "free_points n (take validCount POINTS @ REST) validCount h =
        for_each [0..<validCount] (slot_body ?V) h"
      using for_each_slots_prefix [OF b', of "map values REST" h]
      by (simp add: free_points_for_each)
    also have "\<dots> = for_each [0..<validCount] (slot_body (?V @ map values (drop validCount POINTS))) h"
      using for_each_slots_prefix [OF b', of "map values (drop validCount POINTS)" h] by simp
    also have "\<dots> = free_points n POINTS validCount h"
      by (simp add: free_points_for_each flip: map_append)
    finally show ?thesis using run by simp
  qed
  show ?thesis
    using run rel cnt tail
    by (intro exI [of _ ?h'] exI [of _ ?es]) (simp add: subscripts_slot_trace)
qed

theorem free_points_releases_valid_prefix_witness:
  "length scenario_points = (5::nat) \<and> (3::nat) \<le> 5 \<and>
   distinct (present (map values (take 3 scenario_points))) \<and>
   fset_of_list (present (map values (take 3 scenario_points))) |\<subseteq>| allocated points_mem \<and>
   None \<notin> set (map values (take 3 scenario_points)) \<and>
   (\<exists>h' es. free_points 5 scenario_points 3 points_mem = Inr h' \<and>
      events h' = events points_mem @ es \<and>
      subscripts es = [0, 1, 2] \<and>
      released es = [51, 52, 53] \<and>
      length (released es) = 3 \<and>
      allocated h' = {|50|} \<and>
      free_points 5 (take 3 scenario_points @ []) 3 points_mem = Inr h')"
proof -
  have a: "length scenario_points = (5::nat)" by (simp add: scenario_points_def)
  have b: "(3::nat) \<le> 5" by simp
  have t: "map values (take 3 scenario_points) = [Some 51, Some 52, Some 53]"
    by (simp add: scenario_points_def)
  have c: "distinct (present (map values (take 3 scenario_points)))"
    unfolding t by simp
  have d: "fset_of_list (present (map values (take 3 scenario_points))) |\<subseteq>| allocated points_mem"
    unfolding t by (simp add: points_mem_def)
  have e: "None \<notin> set (map values (take 3 scenario_points))"
    unfolding t by simp
  have f: "allocated points_mem |-| fset_of_list [51, 52, 53] = {|50|}"
    by (auto simp: points_mem_def)
  have u: "[0..<3] = [0, 1, 2::nat]" by (simp add: upt_rec)
  from free_points_releases_valid_prefix [OF a b c d] e
  obtain h' es where r: "free_points 5 scenario_points 3 points_mem = Inr h'"
    "events h' = events points_mem @ es" "subscripts es = [0..<3]"
    "released es = present (map values (take 3 scenario_points))"
    "length (released es) = 3"
    "allocated h' = allocated points_mem |-| fset_of_list (released es)"
    "free_points 5 (take 3 scenario_points @ []) 3 points_mem = Inr h'"
    by blast
  have "\<exists>h' es. free_points 5 scenario_points 3 points_mem = Inr h' \<and>
      events h' = events points_mem @ es \<and>
      subscripts es = [0, 1, 2] \<and>
      released es = [51, 52, 53] \<and>
      length (released es) = 3 \<and>
      allocated h' = {|50|} \<and>
      free_points 5 (take 3 scenario_points @ []) 3 points_mem = Inr h'"
    using r f unfolding t u by (intro exI [of _ h'] exI [of _ es]) simp
  with a b c d e show ?thesis by blast
qed

text \<open>
  C7. In every run of \<^verbatim>\<open>free_points\<close>, also one that ends in a fault, every block
  released is the \<^verbatim>\<open>values\<close> block of a point before index \<open>i\<close>, and the allocated
  blocks change by these releases only. A block \<open>b\<close> that is not such a \<^verbatim>\<open>values\<close>
  block, as the storage of the array \<^verbatim>\<open>POINTS\<close> itself, is not released: it is
  allocated afterwards exactly if it was before. (The array is a parameter that the
  routine only reads: the model has no write to it.)
\<close>

theorem free_points_keeps_array:
  "\<exists>es. events (mem_of (free_points n POINTS i h)) = events h @ es \<and>
     set (map Some (released es)) \<subseteq> set (map values (take i POINTS)) \<and>
     allocated (mem_of (free_points n POINTS i h)) = allocated h |-| fset_of_list (released es) \<and>
     nodes (mem_of (free_points n POINTS i h)) = nodes h \<and>
     (Some b \<notin> set (map values (take i POINTS)) \<longrightarrow>
        Release b \<notin> set es \<and>
        (b |\<in>| allocated (mem_of (free_points n POINTS i h)) \<longleftrightarrow> b |\<in>| allocated h))"
proof -
  let ?S = "map values POINTS"
  let ?m = "mem_of (free_points n POINTS i h)"
  from for_each_slots_any [of "[0..<i]" ?S h]
  obtain es where e: "events ?m = events h @ es"
    and r: "set (map Some (released es)) \<subseteq> set (map ((!) ?S) (filter (\<lambda>j. j < length ?S) [0..<i]))"
    and a: "allocated ?m = allocated h |-| fset_of_list (released es)"
    and n: "nodes ?m = nodes h"
    unfolding free_points_for_each by blast
  have "set (map ((!) ?S) (filter (\<lambda>j. j < length ?S) [0..<i])) \<subseteq> set (take i ?S)"
    by (auto simp: in_set_conv_nth intro!: exI)
  with r have r': "set (map Some (released es)) \<subseteq> set (map values (take i POINTS))"
    by (simp add: take_map)
  have rel: "Release b \<in> set es \<longleftrightarrow> b \<in> set (released es)" for es
    by (induction es rule: released.induct) auto
  have "Release b \<notin> set es \<and> (b |\<in>| allocated ?m \<longleftrightarrow> b |\<in>| allocated h)"
    if "Some b \<notin> set (map values (take i POINTS))"
  proof -
    from that r' have "b \<notin> set (released es)" by auto
    then show ?thesis by (simp add: rel a fset_of_list_elem)
  qed
  with e r' a n show ?thesis by blast
qed

theorem free_points_keeps_array_witness:
  "Some 50 \<notin> set (map values (take 3 scenario_points)) \<and>
   50 |\<in>| allocated points_mem \<and>
   50 |\<in>| allocated (mem_of (free_points 5 scenario_points 3 points_mem)) \<and>
   (\<exists>es. events (mem_of (free_points 5 scenario_points 3 points_mem)) = events points_mem @ es \<and>
      Release 50 \<notin> set es)"
proof -
  have a: "Some 50 \<notin> set (map values (take 3 scenario_points))"
    by (simp add: scenario_points_def)
  have b: "50 |\<in>| allocated points_mem" by (simp add: points_mem_def)
  from free_points_keeps_array [of 5 scenario_points 3 points_mem 50] a b
  show ?thesis by blast
qed

text \<open>
  C10. The result of \<^verbatim>\<open>free_points\<close> is the same for any two values of the parameter
  \<^verbatim>\<open>n\<close>. The bound \<open>validCount \<le> n\<close> is not enforced: with \<open>n = 0\<close> and
  \<open>validCount = 1\<close> the routine releases the \<^verbatim>\<open>values\<close> block of the first point.
\<close>

theorem free_points_ignores_length:
  "free_points n POINTS i h = free_points n' POINTS i h \<and>
   free_points 0 [\<lparr>values = Some a\<rparr>] 1 \<lparr>allocated = {|a|}, nodes = nd, events = []\<rparr> =
     Inr \<lparr>allocated = {||}, nodes = nd, events = [Subscript 0, Release a]\<rparr>"
  by (simp add: free_points_def for_loop.simps point_body_def subscript_def c_free_def emit_def)

section \<open>Releasing the category indices and the distance rows\<close>

text \<open>
  C3. Let the array hold \<open>c\<close> slots, null or not in any mix, the non-null ones pointing
  to allocated blocks that are pairwise different. Then \<^verbatim>\<open>free_category_indices\<close>
  and \<^verbatim>\<open>free_distances\<close> return without a fault; the blocks released are exactly the
  non-null slots, in index order, each once. \<^verbatim>\<open>free(NULL)\<close> leaves the memory as it is,
  so for a null slot the loop body does nothing but read the slot.
\<close>

theorem free_slots_release_present:
  assumes "length SLOTS = c"
    and "distinct (present SLOTS)"
    and "fset_of_list (present SLOTS) |\<subseteq>| allocated h"
  shows "c_free None h = Inr h \<and>
    (i < c \<and> SLOTS ! i = None \<longrightarrow> slot_body SLOTS i h = Inr (emit (Subscript i) h)) \<and>
    (\<exists>h' es. free_category_indices c SLOTS h = Inr h' \<and>
       free_distances c SLOTS h = Inr h' \<and>
       events h' = events h @ es \<and>
       es = slot_trace [0..<c] SLOTS \<and>
       released es = present SLOTS \<and>
       distinct (released es) \<and>
       allocated h' = allocated h |-| fset_of_list (present SLOTS) \<and>
       nodes h' = nodes h)"
proof -
  let ?es = "slot_trace [0..<c] SLOTS"
  let ?h' = "h\<lparr>allocated := allocated h |-| fset_of_list (present SLOTS),
                events := events h @ ?es\<rparr>"
  have S: "map ((!) SLOTS) [0..<c] = SLOTS"
    using assms(1) map_nth [of SLOTS] by simp
  have b: "\<forall>i\<in>set [0..<c]. i < length SLOTS" using assms(1) by simp
  have run: "for_each [0..<c] (slot_body SLOTS) h = Inr ?h'"
    using for_each_slots [of "[0..<c]" SLOTS h] b assms(2,3) by (simp add: S)
  have rel: "released ?es = present SLOTS"
    by (simp add: released_slot_trace S)
  have null: "slot_body SLOTS i h = Inr (emit (Subscript i) h)" if "i < c \<and> SLOTS ! i = None"
    using that assms(1) by (simp add: slot_body_eq)
  have "c_free None h = Inr h" by (simp add: c_free_def)
  with run rel null assms(2) show ?thesis
    by (simp add: free_category_indices_for_each free_distances_for_each)
qed

theorem free_slots_release_present_witness:
  "length [None, Some (41::nat), None, Some 43] = (4::nat) \<and>
   distinct (present [None, Some 41, None, Some 43]) \<and>
   fset_of_list (present [None, Some 41, None, Some 43]) |\<subseteq>| allocated slots_mem \<and>
   (2::nat) < 4 \<and> [None, Some (41::nat), None, Some 43] ! 2 = None \<and>
   slot_body [None, Some 41, None, Some 43] 2 slots_mem = Inr (emit (Subscript 2) slots_mem) \<and>
   (\<exists>h'. free_category_indices 4 [None, Some 41, None, Some 43] slots_mem = Inr h' \<and>
      free_distances 4 [None, Some 41, None, Some 43] slots_mem = Inr h' \<and>
      events h' = [Subscript 0, Subscript 1, Release 41, Subscript 2, Subscript 3, Release 43] \<and>
      released (events h') = [41, 43] \<and>
      allocated h' = {||})"
proof -
  have a: "length [None, Some (41::nat), None, Some 43] = (4::nat)" by simp
  have b: "distinct (present [None, Some 41, None, Some 43])" by simp
  have c: "fset_of_list (present [None, Some 41, None, Some 43]) |\<subseteq>| allocated slots_mem"
    by (simp add: slots_mem_def)
  have d: "(2::nat) < 4" "[None, Some (41::nat), None, Some 43] ! 2 = None" by simp_all
  have u: "[0..<4] = [0, 1, 2, 3::nat]" by (simp add: upt_rec)
  have e: "slot_trace [0..<4] [None, Some 41, None, Some 43] =
      [Subscript 0, Subscript 1, Release 41, Subscript 2, Subscript 3, Release 43]"
    unfolding u by simp
  have f: "allocated slots_mem |-| fset_of_list (present [None, Some 41, None, Some 43]) = {||}"
    by (auto simp: slots_mem_def)
  note t = free_slots_release_present [OF a b c, of 2]
  from t d have g: "slot_body [None, Some 41, None, Some 43] 2 slots_mem = Inr (emit (Subscript 2) slots_mem)"
    by blast
  from t obtain h' where
    r: "free_category_indices 4 [None, Some 41, None, Some 43] slots_mem = Inr h'"
    "free_distances 4 [None, Some 41, None, Some 43] slots_mem = Inr h'"
    "events h' = events slots_mem @ slot_trace [0..<4] [None, Some 41, None, Some 43]"
    "allocated h' = allocated slots_mem |-| fset_of_list (present [None, Some 41, None, Some 43])"
    by blast
  have "\<exists>h'. free_category_indices 4 [None, Some 41, None, Some 43] slots_mem = Inr h' \<and>
      free_distances 4 [None, Some 41, None, Some 43] slots_mem = Inr h' \<and>
      events h' = [Subscript 0, Subscript 1, Release 41, Subscript 2, Subscript 3, Release 43] \<and>
      released (events h') = [41, 43] \<and>
      allocated h' = {||}"
    using r unfolding e f by (intro exI [of _ h']) (simp add: slots_mem_def)
  with a b c d g show ?thesis by (intro conjI)
qed

text \<open>
  C8. \<^verbatim>\<open>free_category_indices\<close> and \<^verbatim>\<open>free_distances\<close> release the slots in index
  order. Releasing the slots in the order of any permutation \<open>is\<close> of the indices
  \<open>0, \<dots>, c - 1\<close> succeeds exactly if the index order succeeds, and then ends in the
  same memory (the same allocated blocks and nodes) having released the same blocks;
  only the order of the events differs.
\<close>

theorem slot_release_order_irrelevant:
  assumes "mset is = mset [0..<c]"
  shows "free_distances c SLOTS h = free_category_indices c SLOTS h \<and>
    free_category_indices c SLOTS h = release_in_order [0..<c] SLOTS h \<and>
    ((\<exists>h1 h2. free_category_indices c SLOTS h = Inr h1 \<and>
        release_in_order is SLOTS h = Inr h2 \<and>
        allocated h2 = allocated h1 \<and> nodes h2 = nodes h1 \<and>
        mset (released (drop (length (events h)) (events h2))) =
          mset (released (drop (length (events h)) (events h1)))) \<or>
     (fault_of (free_category_indices c SLOTS h) \<noteq> None \<and>
      fault_of (release_in_order is SLOTS h) \<noteq> None))"
proof -
  let ?ix = "[0..<c]"
  let ?A = "\<lambda>js. fset_of_list (present (map ((!) SLOTS) js))"
  let ?ok = "\<lambda>js. (\<forall>i\<in>set js. i < length SLOTS) \<and> distinct (present (map ((!) SLOTS) js)) \<and>
      ?A js |\<subseteq>| allocated h"
  have ms: "mset (present (map ((!) SLOTS) is)) = mset (present (map ((!) SLOTS) ?ix))"
    using assms by (rule mset_present_perm)
  have st: "set is = set ?ix" using assms by (rule mset_eq_setD)
  have di: "distinct (present (map ((!) SLOTS) is)) = distinct (present (map ((!) SLOTS) ?ix))"
    using ms by (rule mset_eq_imp_distinct_iff)
  have fs: "?A is = ?A ?ix"
    using mset_eq_setD [OF ms] by (auto simp: fset_of_list_elem)
  have ok: "?ok is = ?ok ?ix" by (simp only: st di fs)
  have eq: "free_distances c SLOTS h = free_category_indices c SLOTS h \<and>
    free_category_indices c SLOTS h = release_in_order [0..<c] SLOTS h"
    by (simp add: free_category_indices_for_each free_distances_for_each release_in_order_def)
  show ?thesis
  proof (cases "?ok ?ix")
    case True
    then have t1: "(\<forall>i\<in>set ?ix. i < length SLOTS)" "distinct (present (map ((!) SLOTS) ?ix))"
      "?A ?ix |\<subseteq>| allocated h" by blast+
    from True ok have "?ok is" by blast
    then have t2: "(\<forall>i\<in>set is. i < length SLOTS)" "distinct (present (map ((!) SLOTS) is))"
      "?A is |\<subseteq>| allocated h" by blast+
    note r1 = for_each_slots [OF t1]
    note r2 = for_each_slots [OF t2]
    have "mset (released (slot_trace is SLOTS)) = mset (released (slot_trace ?ix SLOTS))"
      by (simp only: released_slot_trace ms)
    then show ?thesis
      using eq r1 r2 fs
      by (simp add: free_category_indices_for_each release_in_order_def)
  next
    case False
    then have f1: "fault_of (for_each ?ix (slot_body SLOTS) h) \<noteq> None"
      using for_each_slots_conv [of ?ix SLOTS h]
      by (cases "for_each ?ix (slot_body SLOTS) h") (auto simp: fault_of_def)
    from False ok have "\<not> ?ok is" by blast
    then have f2: "fault_of (for_each is (slot_body SLOTS) h) \<noteq> None"
      using for_each_slots_conv [of "is" SLOTS h]
      by (cases "for_each is (slot_body SLOTS) h") (auto simp: fault_of_def)
    from f1 f2 eq show ?thesis
      by (simp add: free_category_indices_for_each release_in_order_def)
  qed
qed

theorem slot_release_order_irrelevant_witness:
  "mset [3, 1, 0, 2] = mset [0..<4] \<and>
   release_in_order [3, 1, 0, 2] [None, Some 41, None, Some 43] slots_mem =
      Inr \<lparr>allocated = {||}, nodes = nodes slots_mem,
           events = [Subscript 3, Release 43, Subscript 1, Release 41, Subscript 0, Subscript 2]\<rparr> \<and>
   (\<exists>h1. free_category_indices 4 [None, Some 41, None, Some 43] slots_mem = Inr h1 \<and>
      allocated h1 = {||} \<and> nodes h1 = nodes slots_mem \<and>
      mset (released (events h1)) = mset [43, 41])"
proof -
  have u: "[0..<4] = [0, 1, 2, 3::nat]" by (simp add: upt_rec)
  have a: "mset [3, 1, 0, 2] = mset [0..<4]" unfolding u by simp
  have r2: "release_in_order [3, 1, 0, 2] [None, Some 41, None, Some 43] slots_mem =
      Inr \<lparr>allocated = {||}, nodes = nodes slots_mem,
           events = [Subscript 3, Release 43, Subscript 1, Release 41, Subscript 0, Subscript 2]\<rparr>"
    by (simp add: release_in_order_def slot_body_eq slots_mem_def emit_def finsert_fminus_if)
  then have nf: "fault_of (release_in_order [3, 1, 0, 2] [None, Some 41, None, Some 43] slots_mem) = None"
    by (simp add: fault_of_def)
  from slot_release_order_irrelevant [OF a, of "[None, Some 41, None, Some 43]" slots_mem] nf
  obtain h1 h2 where h: "free_category_indices 4 [None, Some 41, None, Some 43] slots_mem = Inr h1"
    "release_in_order [3, 1, 0, 2] [None, Some 41, None, Some 43] slots_mem = Inr h2"
    "allocated h2 = allocated h1" "nodes h2 = nodes h1"
    "mset (released (drop (length (events slots_mem)) (events h2))) =
       mset (released (drop (length (events slots_mem)) (events h1)))"
    by blast
  from h(2) r2 have h2: "h2 = \<lparr>allocated = {||}, nodes = nodes slots_mem,
           events = [Subscript 3, Release 43, Subscript 1, Release 41, Subscript 0, Subscript 2]\<rparr>"
    by simp
  have "allocated h1 = {||}" "nodes h1 = nodes slots_mem"
    "mset (released (events h1)) = mset [43, 41]"
    using h(3,4,5) unfolding h2 by (simp_all add: slots_mem_def)
  with h(1) a r2 show ?thesis by blast
qed

end
